theory Spec2Isabelle
  imports Main "HOL-Library.AList"
begin

section \<open>JavaScript values, nodes and the object store\<close>

text \<open>
  An element of the set is any JavaScript value, \<open>undefined\<close> included. Only the
  distinction between \<open>undefined\<close> and everything else matters to the code
  (\<open>iteratorResult\<close> compares against \<open>undefined\<close>), so a value is either
  \<open>Undefined\<close> or some other value \<open>Val x\<close>. Equality of \<open>Val x\<close> stands for the
  key equality of the built-in \<open>Map\<close>.
\<close>

datatype 'a jsval = Undefined | Val 'a

text \<open>
  Nodes are mutable objects that the set, their neighbours and every cursor share by
  reference. The store is the list of all nodes ever allocated; a reference is an index
  into it, \<open>null\<close> is \<open>None\<close>. \<open>new ReverseIterableSetNode(value)\<close> appends to the store,
  nothing is ever freed (a removed node stays where it is, unreachable from the set), so
  a reference held by a well-formed set is always below the length of the store.
\<close>

type_synonym addr = nat

record 'a ReverseIterableSetNode =
  nodeValue :: "'a jsval"
  nextNode :: "addr option"
  prevNode :: "addr option"

type_synonym 'a store = "'a ReverseIterableSetNode list"

definition newNode :: "'a jsval \<Rightarrow> 'a ReverseIterableSetNode" where
  "newNode v = \<lparr>nodeValue = v, nextNode = None, prevNode = None\<rparr>"

definition set_nextNode :: "addr \<Rightarrow> addr option \<Rightarrow> 'a store \<Rightarrow> 'a store" where
  "set_nextNode a p h = h[a := (h ! a)\<lparr>nextNode := p\<rparr>]"

definition set_prevNode :: "addr \<Rightarrow> addr option \<Rightarrow> 'a store \<Rightarrow> 'a store" where
  "set_prevNode a p h = h[a := (h ! a)\<lparr>prevNode := p\<rparr>]"

section \<open>The built-in Map\<close>

text \<open>
  \<open>_setMap\<close> is a built-in \<open>Map\<close>: an insertion-ordered list of entries with pairwise
  different keys. \<open>set\<close> on a new key appends, \<open>delete\<close> removes the entry and tells
  whether there was one, \<open>get\<close> on a missing key is \<open>undefined\<close> (\<open>None\<close>), \<open>size\<close> counts
  the entries.
\<close>

type_synonym ('k, 'v) jsmap = "('k \<times> 'v) list"

definition Map_has :: "('k, 'v) jsmap \<Rightarrow> 'k \<Rightarrow> bool" where
  "Map_has m k = (map_of m k \<noteq> None)"

definition Map_get :: "('k, 'v) jsmap \<Rightarrow> 'k \<Rightarrow> 'v option" where
  "Map_get m k = map_of m k"

definition Map_set :: "'k \<Rightarrow> 'v \<Rightarrow> ('k, 'v) jsmap \<Rightarrow> ('k, 'v) jsmap" where
  "Map_set k v m = AList.update k v m"

definition Map_delete :: "'k \<Rightarrow> ('k, 'v) jsmap \<Rightarrow> bool \<times> ('k, 'v) jsmap" where
  "Map_delete k m = (Map_has m k, AList.delete k m)"

definition Map_size :: "('k, 'v) jsmap \<Rightarrow> nat" where
  "Map_size m = length m"

section \<open>ReverseIterableSet\<close>

record 'a ReverseIterableSet =
  store :: "'a store"
  setMap :: "('a jsval, addr) jsmap"
  firstNode :: "addr option"
  lastNode :: "addr option"

definition size_set :: "'a ReverseIterableSet \<Rightarrow> nat" where
  "size_set s = Map_size (setMap s)"

definition clear :: "'a ReverseIterableSet \<Rightarrow> 'a ReverseIterableSet" where
  "clear s = s\<lparr>setMap := [], firstNode := None, lastNode := None\<rparr>"

definition has :: "'a ReverseIterableSet \<Rightarrow> 'a jsval \<Rightarrow> bool" where
  "has s v = Map_has (setMap s) v"

text \<open>
  \<open>add\<close> and \<open>addFirst\<close> return \<open>this\<close>; the model returns the state of that same object
  after the call.
\<close>

definition add :: "'a jsval \<Rightarrow> 'a ReverseIterableSet \<Rightarrow> 'a ReverseIterableSet" where
  "add v s =
    (if has s v then s
     else
       let node = length (store s);
           h1 = store s @ [newNode v];
           m1 = Map_set v node (setMap s);
           h2 = (case lastNode s of
                   None \<Rightarrow> h1
                 | Some l \<Rightarrow> set_nextNode l (Some node) (set_prevNode node (Some l) h1));
           f = (case firstNode s of None \<Rightarrow> Some node | Some f0 \<Rightarrow> Some f0)
       in \<lparr>store = h2, setMap = m1, firstNode = f, lastNode = Some node\<rparr>)"

definition addFirst :: "'a jsval \<Rightarrow> 'a ReverseIterableSet \<Rightarrow> 'a ReverseIterableSet" where
  "addFirst v s =
    (if has s v then s
     else
       let node = length (store s);
           h1 = store s @ [newNode v];
           m1 = Map_set v node (setMap s);
           h2 = (case firstNode s of
                   None \<Rightarrow> h1
                 | Some f \<Rightarrow> set_prevNode f (Some node) (set_nextNode node (Some f) h1));
           l = (case lastNode s of None \<Rightarrow> Some node | Some l0 \<Rightarrow> Some l0)
       in \<lparr>store = h2, setMap = m1, firstNode = Some node, lastNode = l\<rparr>)"

text \<open>
  \<open>delete\<close> returns a boolean and mutates the set: the model returns both. The four
  branches are tested in the order of the source.
\<close>

definition delete :: "'a jsval \<Rightarrow> 'a ReverseIterableSet \<Rightarrow> bool \<times> 'a ReverseIterableSet" where
  "delete v s =
    (case Map_get (setMap s) v of
       None \<Rightarrow> (False, s)
     | Some node \<Rightarrow>
         let h = store s;
             s1 = (case (prevNode (h ! node), nextNode (h ! node)) of
                     (Some p, Some n) \<Rightarrow>
                       s\<lparr>store := set_prevNode n (Some p) (set_nextNode p (Some n) h)\<rparr>
                   | (Some p, None) \<Rightarrow>
                       s\<lparr>store := set_nextNode p None h, lastNode := Some p\<rparr>
                   | (None, Some n) \<Rightarrow>
                       s\<lparr>store := set_prevNode n None h, firstNode := Some n\<rparr>
                   | (None, None) \<Rightarrow>
                       s\<lparr>firstNode := None, lastNode := None\<rparr>);
             (b, m) = Map_delete v (setMap s1)
         in (b, s1\<lparr>setMap := m\<rparr>))"

text \<open>
  The constructor: no argument (\<open>None\<close>) gives the empty set, an iterable is consumed
  from left to right with \<open>add\<close>. The iterable is a finite list.
\<close>

definition emptySet :: "'a ReverseIterableSet" where
  "emptySet = \<lparr>store = [], setMap = [], firstNode = None, lastNode = None\<rparr>"

definition construct :: "'a jsval list option \<Rightarrow> 'a ReverseIterableSet" where
  "construct iterable =
    (case iterable of None \<Rightarrow> emptySet | Some xs \<Rightarrow> fold add xs emptySet)"

section \<open>Cursors\<close>

text \<open>
  What \<open>next\<close> hands to \<open>iteratorResult\<close>: the node's value (\<open>values\<close>, \<open>iteratorFor\<close>), a
  pair of it (\<open>entries\<close>), or the initial \<open>undefined\<close> of \<open>let value\<close>.
\<close>

datatype 'a out = Single "'a jsval" | Pair "'a jsval" "'a jsval"

record 'a IteratorResult =
  resultValue :: "'a out"
  resultDone :: bool

definition iteratorResult :: "'a out \<Rightarrow> 'a IteratorResult" where
  "iteratorResult v = \<lparr>resultValue = v, resultDone = (v = Single Undefined)\<rparr>"

datatype getter = NodeValue | NodePair

fun applyGetter :: "getter \<Rightarrow> 'a ReverseIterableSetNode \<Rightarrow> 'a out" where
  "applyGetter NodeValue node = Single (nodeValue node)"
| "applyGetter NodePair node = Pair (nodeValue node) (nodeValue node)"

text \<open>
  The object returned by \<open>_iterableIterator\<close> is a closure over \<open>getIteratorValue\<close>,
  \<open>startNode\<close> (\<open>None\<close> is \<open>undefined\<close>), the constant \<open>lastNode\<close> read from the set when the
  cursor is made (\<open>capturedLastNode\<close>), and the two variables \<open>currentNode\<close> and \<open>forwards\<close>.
\<close>

record cursor =
  getIteratorValue :: getter
  startNode :: "addr option"
  capturedLastNode :: "addr option"
  currentNode :: "addr option"
  forwards :: bool

definition iterableIterator :: "getter \<Rightarrow> addr option \<Rightarrow> 'a ReverseIterableSet \<Rightarrow> cursor" where
  "iterableIterator g start s =
    \<lparr>getIteratorValue = g, startNode = start, capturedLastNode = lastNode s,
     currentNode = (case start of Some a \<Rightarrow> Some a | None \<Rightarrow> firstNode s),
     forwards = True\<rparr>"

definition cursor_reverseIterator :: "cursor \<Rightarrow> cursor" where
  "cursor_reverseIterator c =
    c\<lparr>currentNode := (case startNode c of Some a \<Rightarrow> Some a | None \<Rightarrow> capturedLastNode c),
      forwards := False\<rparr>"

text \<open>\<open>next\<close> reads the nodes as they are in the store at the time of the call.\<close>

definition cursor_next :: "'a store \<Rightarrow> cursor \<Rightarrow> 'a IteratorResult \<times> cursor" where
  "cursor_next h c =
    (case currentNode c of
       None \<Rightarrow> (iteratorResult (Single Undefined), c)
     | Some a \<Rightarrow>
         (iteratorResult (applyGetter (getIteratorValue c) (h ! a)),
          c\<lparr>currentNode := (if forwards c then nextNode (h ! a) else prevNode (h ! a))\<rparr>))"

definition entries :: "'a ReverseIterableSet \<Rightarrow> cursor" where
  "entries s = iterableIterator NodePair None s"

definition values_set :: "'a ReverseIterableSet \<Rightarrow> cursor" where
  "values_set s = iterableIterator NodeValue None s"

definition iteratorFor :: "'a jsval \<Rightarrow> 'a ReverseIterableSet \<Rightarrow> cursor" where
  "iteratorFor v s = iterableIterator NodeValue (Map_get (setMap s) v) s"

definition reverseIterator :: "'a ReverseIterableSet \<Rightarrow> cursor" where
  "reverseIterator s = cursor_reverseIterator (values_set s)"

text \<open>
  A consumer that calls \<open>next\<close> once per store in \<open>hs\<close> (the set may be mutated between
  the calls): the results in order, and the cursor afterwards.
\<close>

fun steps :: "'a store list \<Rightarrow> cursor \<Rightarrow> 'a IteratorResult list \<times> cursor" where
  "steps [] c = ([], c)"
| "steps (h # hs) c =
    (case cursor_next h c of (r, c') \<Rightarrow>
       (case steps hs c' of (rs, c'') \<Rightarrow> (r # rs, c'')))"

text \<open>
  Spread and \<open>for ... of\<close> over a cursor, with the set left alone meanwhile: call \<open>next\<close>
  until a result is done and keep the values before it. On a store with a cycle the loop
  runs forever, which is the value \<open>None\<close>.
\<close>

partial_function (option) collect :: "'a store \<Rightarrow> cursor \<Rightarrow> 'a out list option" where
  "collect h c =
    (case cursor_next h c of (r, c') \<Rightarrow>
       if resultDone r then Some []
       else Option.bind (collect h c') (\<lambda>vs. Some (resultValue r # vs)))"

declare collect.simps [code]

text \<open>\<open>[Symbol.iterator]()\<close> of the set is \<open>values()\<close>.\<close>

definition symbolIterator :: "'a ReverseIterableSet \<Rightarrow> cursor" where
  "symbolIterator s = values_set s"

text \<open>
  A consumer that keeps the set as it is and uses the cursor through its two methods, in
  any order: the results of the \<open>next\<close> calls in order, and the cursor afterwards.
\<close>

datatype action = Next | Reverse

fun run :: "'a store \<Rightarrow> action list \<Rightarrow> cursor \<Rightarrow> 'a IteratorResult list \<times> cursor" where
  "run h [] c = ([], c)"
| "run h (Next # acts) c =
    (case cursor_next h c of (r, c') \<Rightarrow>
       (case run h acts c' of (rs, c'') \<Rightarrow> (r # rs, c'')))"
| "run h (Reverse # acts) c = run h acts (cursor_reverseIterator c)"

text \<open>Shorthands: the result of an exhausted step, and a getter applied to a value.\<close>

definition doneResult :: "'a IteratorResult" where
  "doneResult = iteratorResult (Single Undefined)"

fun outOf :: "getter \<Rightarrow> 'a jsval \<Rightarrow> 'a out" where
  "outOf NodeValue x = Single x"
| "outOf NodePair x = Pair x x"

definition dirField :: "bool \<Rightarrow> 'a ReverseIterableSetNode \<Rightarrow> addr option" where
  "dirField fw node = (if fw then nextNode node else prevNode node)"

section \<open>The chain and the invariants of the set\<close>

text \<open>
  The chain of a set: the nodes met from \<open>_firstNode\<close> along \<open>nextNode\<close>. A chain of
  pairwise different allocated nodes is no longer than the store, which bounds the walk.
  The elements of the set are the values of the chain, in that order.
\<close>

fun walk :: "nat \<Rightarrow> 'a store \<Rightarrow> addr option \<Rightarrow> addr list" where
  "walk 0 h p = []"
| "walk (Suc n) h None = []"
| "walk (Suc n) h (Some a) = a # walk n h (nextNode (h ! a))"

definition chain :: "'a ReverseIterableSet \<Rightarrow> addr list" where
  "chain s = walk (length (store s)) (store s) (firstNode s)"

definition elements :: "'a ReverseIterableSet \<Rightarrow> 'a jsval list" where
  "elements s = map (\<lambda>a. nodeValue (store s ! a)) (chain s)"

text \<open>
  The invariants of the data model, over the chain:
  \<^enum> \<open>inv_index\<close>: the index holds exactly the pairs (value, node) of the chain, and no
    two nodes of the chain hold the same value;
  \<^enum> \<open>inv_chain\<close>: the chain is acyclic (its nodes are pairwise different and allocated)
    and doubly consistent (\<open>n.nextNode = m\<close> gives \<open>m.prevNode = n\<close>, and the other way
    round, with \<open>m\<close> on the chain too);
  \<^enum> \<open>inv_ends\<close>: the first node has no predecessor, the last node is on the chain and
    has no successor, and each of the two is \<open>null\<close> exactly when the set is empty;
  \<^enum> \<open>inv_size\<close>: the size of the index, which is the reported size, is the length of
    the chain.
\<close>

definition inv_index :: "'a ReverseIterableSet \<Rightarrow> bool" where
  "inv_index s =
    (distinct (elements s) \<and> distinct (map fst (setMap s)) \<and>
     set (setMap s) = (\<lambda>a. (nodeValue (store s ! a), a)) ` set (chain s))"

definition inv_chain :: "'a ReverseIterableSet \<Rightarrow> bool" where
  "inv_chain s =
    (distinct (chain s) \<and>
     (\<forall>n \<in> set (chain s). n < length (store s) \<and>
        (case nextNode (store s ! n) of
           None \<Rightarrow> True
         | Some m \<Rightarrow> m \<in> set (chain s) \<and> prevNode (store s ! m) = Some n) \<and>
        (case prevNode (store s ! n) of
           None \<Rightarrow> True
         | Some m \<Rightarrow> m \<in> set (chain s) \<and> nextNode (store s ! m) = Some n)))"

definition inv_ends :: "'a ReverseIterableSet \<Rightarrow> bool" where
  "inv_ends s =
    ((case firstNode s of None \<Rightarrow> True | Some f \<Rightarrow> prevNode (store s ! f) = None) \<and>
     (case lastNode s of
        None \<Rightarrow> True
      | Some l \<Rightarrow> l \<in> set (chain s) \<and> nextNode (store s ! l) = None) \<and>
     (firstNode s = None) = (size_set s = 0) \<and>
     (lastNode s = None) = (size_set s = 0))"

definition inv_size :: "'a ReverseIterableSet \<Rightarrow> bool" where
  "inv_size s = (Map_size (setMap s) = length (chain s) \<and> size_set s = length (chain s))"

definition set_inv :: "'a ReverseIterableSet \<Rightarrow> bool" where
  "set_inv s = (inv_index s \<and> inv_chain s \<and> inv_ends s \<and> inv_size s)"

text \<open>
  A cursor is on the chain \<open>as\<close> when the nodes it refers to (current, start, captured
  last) are nodes of \<open>as\<close>.
\<close>

definition on_chain :: "addr list \<Rightarrow> cursor \<Rightarrow> bool" where
  "on_chain as c =
    ((case currentNode c of None \<Rightarrow> True | Some a \<Rightarrow> a \<in> set as) \<and>
     (case startNode c of None \<Rightarrow> True | Some a \<Rightarrow> a \<in> set as) \<and>
     (case capturedLastNode c of None \<Rightarrow> True | Some a \<Rightarrow> a \<in> set as))"

text \<open>
  For the proofs, the same in relational form: \<open>path f h as q\<close> says that field \<open>f\<close> leads
  through the nodes \<open>as\<close> one by one and from the last of them to \<open>q\<close>; \<open>rep s as\<close> says that
  \<open>s\<close> is a well-formed set whose chain is \<open>as\<close>.
\<close>

definition headOpt :: "addr list \<Rightarrow> addr option \<Rightarrow> addr option" where
  "headOpt as q = (case as of [] \<Rightarrow> q | a # _ \<Rightarrow> Some a)"

fun path :: "('a ReverseIterableSetNode \<Rightarrow> addr option) \<Rightarrow> 'a store \<Rightarrow> addr list \<Rightarrow>
    addr option \<Rightarrow> bool" where
  "path f h [] q = True"
| "path f h (a # as) q = (f (h ! a) = headOpt as q \<and> path f h as q)"

definition rep :: "'a ReverseIterableSet \<Rightarrow> addr list \<Rightarrow> bool" where
  "rep s as =
    (distinct as \<and> (\<forall>a \<in> set as. a < length (store s)) \<and>
     path nextNode (store s) as None \<and> path prevNode (store s) (rev as) None \<and>
     firstNode s = headOpt as None \<and> lastNode s = headOpt (rev as) None \<and>
     distinct (map (\<lambda>a. nodeValue (store s ! a)) as) \<and> distinct (map fst (setMap s)) \<and>
     set (setMap s) = (\<lambda>a. (nodeValue (store s ! a), a)) ` set as)"

text \<open>
  The sets a program can hold: made by the constructor, then changed by any sequence of
  the mutating methods.
\<close>

datatype 'a operation = Add "'a jsval" | AddFirst "'a jsval" | Delete "'a jsval" | Clear

fun applyOperation :: "'a ReverseIterableSet \<Rightarrow> 'a operation \<Rightarrow> 'a ReverseIterableSet" where
  "applyOperation s (Add v) = add v s"
| "applyOperation s (AddFirst v) = addFirst v s"
| "applyOperation s (Delete v) = snd (delete v s)"
| "applyOperation s Clear = clear s"

definition built :: "'a jsval list option \<Rightarrow> 'a operation list \<Rightarrow> 'a ReverseIterableSet" where
  "built iterable ops = foldl applyOperation (construct iterable) ops"

section \<open>Example sets\<close>

definition abcde :: "string ReverseIterableSet" where
  "abcde = construct (Some [Val ''a'', Val ''b'', Val ''c'', Val ''d'', Val ''e''])"

definition abc :: "string ReverseIterableSet" where
  "abc = construct (Some [Val ''a'', Val ''b'', Val ''c''])"

definition single :: "string ReverseIterableSet" where
  "single = construct (Some [Val ''a''])"

definition undef_a :: "string ReverseIterableSet" where
  "undef_a = construct (Some [Undefined, Val ''a''])"

definition a_undef_b :: "string ReverseIterableSet" where
  "a_undef_b = construct (Some [Val ''a'', Undefined, Val ''b''])"

section \<open>Paths in the store\<close>

lemma headOpt_simps [simp]: "headOpt [] q = q" "headOpt (a # as) q = Some a"
  by (simp_all add: headOpt_def)

lemma headOpt_append: "headOpt (as @ bs) q = headOpt as (headOpt bs q)"
  by (cases as) simp_all

lemma path_append: "path f h (as @ bs) q = (path f h as (headOpt bs q) \<and> path f h bs q)"
  by (induction as) (auto simp: headOpt_append)

lemma path_frame:
  "\<forall>a \<in> set as. f (h' ! a) = f (h ! a) \<Longrightarrow> path f h' as q = path f h as q"
  by (induction as) auto

lemma path_relink:
  "path f h as q \<Longrightarrow> as \<noteq> [] \<Longrightarrow> \<forall>a \<in> set (butlast as). f (h' ! a) = f (h ! a) \<Longrightarrow>
   f (h' ! last as) = q' \<Longrightarrow> path f h' as q'"
proof (induction as)
  case Nil
  then show ?case by simp
next
  case (Cons a as)
  show ?case
  proof (cases as)
    case Nil
    with Cons.prems show ?thesis by simp
  next
    case (Cons b bs)
    with Cons.prems Cons.IH show ?thesis by (auto simp: )
  qed
qed

lemma path_nth:
  "path f h (xs @ a # ys) q \<Longrightarrow> f (h ! a) = headOpt ys q"
  by (simp add: path_append)

lemma walk_None [simp]: "walk n h None = []"
  by (cases n) simp_all

lemma walk_path:
  "path nextNode h as None \<Longrightarrow> length as \<le> n \<Longrightarrow> walk n h (headOpt as None) = as"
proof (induction as arbitrary: n)
  case Nil
  then show ?case by simp
next
  case (Cons a as)
  then obtain k where n: "n = Suc k" by (cases n) auto
  with Cons show ?case by simp
qed

lemma distinct_length_le:
  assumes "distinct as" "\<forall>a \<in> set as. a < (n::nat)"
  shows "length as \<le> n"
proof -
  have "set as \<subseteq> {..<n}" using assms(2) by auto
  then have "card (set as) \<le> card {..<n}" by (intro card_mono) auto
  with assms(1) show ?thesis by (simp add: distinct_card)
qed

lemma rep_chain: "rep s as \<Longrightarrow> chain s = as"
  unfolding rep_def chain_def
  using walk_path [of "store s" as "length (store s)"] distinct_length_le [of as "length (store s)"]
  by auto

section \<open>The invariants in relational form\<close>

lemma rev_eq_Cons: "rev xs = y # ys \<Longrightarrow> xs = rev ys @ [y]"
  by (simp add: rev_eq_Cons_iff)

lemma index_length:
  assumes "distinct (map fst m)" "set m = (\<lambda>a. (g a, a)) ` set as" "distinct as"
  shows "length m = length as"
proof -
  have "distinct m" using assms(1) by (simp add: distinct_map)
  then have "length m = card (set m)" by (simp add: distinct_card)
  also have "\<dots> = card ((\<lambda>a. (g a, a)) ` set as)" using assms(2) by simp
  also have "\<dots> = card (set as)" by (rule card_image) (auto simp: inj_on_def)
  also have "\<dots> = length as" using assms(3) by (simp add: distinct_card)
  finally show ?thesis .
qed

lemma rep_size: "rep s as \<Longrightarrow> size_set s = length as"
proof -
  assume r: "rep s as"
  then have "distinct (map fst (setMap s))"
    "set (setMap s) = (\<lambda>a. (nodeValue (store s ! a), a)) ` set as" "distinct as"
    by (simp_all add: rep_def)
  then have "length (setMap s) = length as" by (rule index_length)
  then show ?thesis by (simp add: size_set_def Map_size_def)
qed

lemma rep_next_prev:
  assumes "rep s as" "n \<in> set as" "nextNode (store s ! n) = Some m"
  shows "m \<in> set as \<and> prevNode (store s ! m) = Some n"
proof -
  from assms(2) obtain xs ys where as: "as = xs @ n # ys" by (auto dest: split_list)
  from assms(1) have p: "path nextNode (store s) as None" "path prevNode (store s) (rev as) None"
    by (simp_all add: rep_def)
  from p(1) as have "nextNode (store s ! n) = headOpt ys None" by (simp add: path_append)
  with assms(3) obtain zs where ys: "ys = m # zs" by (cases ys) auto
  from p(2) as ys have "path prevNode (store s) (rev zs @ m # n # rev xs) None" by simp
  then have "prevNode (store s ! m) = Some n" by (simp add: path_append)
  with as ys show ?thesis by simp
qed

lemma rep_prev_next:
  assumes "rep s as" "n \<in> set as" "prevNode (store s ! n) = Some m"
  shows "m \<in> set as \<and> nextNode (store s ! m) = Some n"
proof -
  from assms(2) obtain xs ys where as: "as = xs @ n # ys" by (auto dest: split_list)
  from assms(1) have p: "path nextNode (store s) as None" "path prevNode (store s) (rev as) None"
    by (simp_all add: rep_def)
  from p(2) as have "path prevNode (store s) (rev ys @ n # rev xs) None" by simp
  then have "prevNode (store s ! n) = headOpt (rev xs) None" by (simp add: path_append)
  with assms(3) obtain zs where xs: "rev xs = m # zs" by (cases "rev xs") auto
  then have xs': "xs = rev zs @ [m]" by (rule rev_eq_Cons)
  from p(1) as xs' have "path nextNode (store s) (rev zs @ m # n # ys) None" by simp
  then have "nextNode (store s ! m) = Some n" by (simp add: path_append)
  with as xs' show ?thesis by simp
qed

lemma rep_first:
  assumes "rep s as" "firstNode s = Some f"
  shows "as \<noteq> [] \<and> hd as = f \<and> prevNode (store s ! f) = None"
proof -
  from assms obtain bs where as: "as = f # bs" by (cases as) (auto simp: rep_def)
  from assms(1) have "path prevNode (store s) (rev as) None" by (simp add: rep_def)
  with as have "prevNode (store s ! f) = None" by (simp add: path_append)
  with as show ?thesis by simp
qed

lemma rep_last:
  assumes "rep s as" "lastNode s = Some l"
  shows "as \<noteq> [] \<and> last as = l \<and> nextNode (store s ! l) = None"
proof -
  from assms obtain bs where "rev as = l # bs" by (cases "rev as") (auto simp: rep_def)
  then have as: "as = rev bs @ [l]" by (rule rev_eq_Cons)
  from assms(1) have "path nextNode (store s) as None" by (simp add: rep_def)
  with as have "nextNode (store s ! l) = None" by (simp add: path_append)
  with as show ?thesis by simp
qed

lemma rep_set_inv:
  assumes r: "rep s as"
  shows "set_inv s"
proof -
  have c: "chain s = as" using r by (rule rep_chain)
  have sz: "size_set s = length as" using r by (rule rep_size)
  have "inv_index s"
    using r by (simp add: inv_index_def elements_def c rep_def)
  moreover have "inv_chain s"
  proof -
    have "distinct as" "\<forall>a \<in> set as. a < length (store s)" using r by (simp_all add: rep_def)
    moreover have "case nextNode (store s ! n) of None \<Rightarrow> True
        | Some m \<Rightarrow> m \<in> set as \<and> prevNode (store s ! m) = Some n" if "n \<in> set as" for n
      using rep_next_prev [OF r that] by (simp split: option.splits)
    moreover have "case prevNode (store s ! n) of None \<Rightarrow> True
        | Some m \<Rightarrow> m \<in> set as \<and> nextNode (store s ! m) = Some n" if "n \<in> set as" for n
      using rep_prev_next [OF r that] by (simp split: option.splits)
    ultimately show ?thesis unfolding inv_chain_def c by blast
  qed
  moreover have "inv_ends s"
  proof -
    have "(firstNode s = None) = (as = [])" using r by (cases as) (simp_all add: rep_def)
    moreover have "(lastNode s = None) = (as = [])" using r by (cases "rev as") (simp_all add: rep_def)
    ultimately show ?thesis
      unfolding inv_ends_def c sz
      using rep_first [OF r] rep_last [OF r]
      by (auto split: option.splits)
  qed
  moreover have "inv_size s"
    using sz by (simp add: inv_size_def c size_set_def)
  ultimately show ?thesis by (simp add: set_inv_def)
qed

lemma walk_next_path:
  "l \<in> set (walk n h p) \<Longrightarrow> nextNode (h ! l) = None \<Longrightarrow> path nextNode h (walk n h p) None"
proof (induction n h p rule: walk.induct)
  case (3 n h a)
  show ?case
  proof (cases "nextNode (h ! a)")
    case None
    then show ?thesis by simp
  next
    case (Some b)
    with "3.prems" have l: "l \<in> set (walk n h (Some b))" by auto
    then obtain k where n: "n = Suc k" by (cases n) auto
    from l "3.prems" "3.IH" Some have "path nextNode h (walk n h (Some b)) None" by simp
    with Some n show ?thesis by simp
  qed
qed simp_all

lemma next_path_prev_path:
  "path nextNode h as q \<Longrightarrow>
   \<forall>n \<in> set as. \<forall>m. nextNode (h ! n) = Some m \<longrightarrow> m \<in> set as \<longrightarrow> prevNode (h ! m) = Some n \<Longrightarrow>
   as \<noteq> [] \<longrightarrow> prevNode (h ! hd as) = p \<Longrightarrow> path prevNode h (rev as) p"
proof (induction as arbitrary: p)
  case Nil
  then show ?case by simp
next
  case (Cons a as)
  have "path prevNode h (rev as) (Some a)"
  proof (rule Cons.IH)
    show "path nextNode h as q" using Cons.prems(1) by simp
    show "\<forall>n\<in>set as. \<forall>m. nextNode (h ! n) = Some m \<longrightarrow> m \<in> set as \<longrightarrow> prevNode (h ! m) = Some n"
      using Cons.prems(2) by auto
    show "as \<noteq> [] \<longrightarrow> prevNode (h ! hd as) = Some a"
      using Cons.prems(1,2) by (cases as) auto
  qed
  with Cons.prems(3) show ?case by (simp add: path_append)
qed

lemma path_None_last:
  "path f h as None \<Longrightarrow> l \<in> set as \<Longrightarrow> f (h ! l) = None \<Longrightarrow> last as = l"
proof -
  assume a: "path f h as None" "l \<in> set as" "f (h ! l) = None"
  from a(2) obtain xs ys where as: "as = xs @ l # ys" by (auto dest: split_list)
  with a(1) have "f (h ! l) = headOpt ys None" by (simp add: path_append)
  with a(3) have "ys = []" by (cases ys) auto
  with as show ?thesis by simp
qed

lemma inv_chain_next_prev:
  assumes "inv_chain s" "n \<in> set (chain s)" "nextNode (store s ! n) = Some m"
  shows "prevNode (store s ! m) = Some n"
  using assms unfolding inv_chain_def by fastforce

lemma inv_ends_first:
  assumes en: "inv_ends s" and len: "size_set s = length (chain s)"
  shows "firstNode s = headOpt (chain s) None"
proof (cases "firstNode s")
  case None
  then show ?thesis by (simp add: chain_def)
next
  case (Some f)
  with en len have "chain s \<noteq> []" by (auto simp: inv_ends_def)
  then have "length (store s) \<noteq> 0" by (auto simp: chain_def)
  then obtain k where "length (store s) = Suc k" by (cases "length (store s)") auto
  with Some show ?thesis by (simp add: chain_def)
qed

lemma inv_ends_next_path:
  assumes en: "inv_ends s" and len: "size_set s = length (chain s)"
  shows "path nextNode (store s) (chain s) None"
proof (cases "lastNode s")
  case None
  with en len have "chain s = []" by (auto simp: inv_ends_def)
  then show ?thesis by simp
next
  case (Some l)
  with en have "l \<in> set (chain s)" "nextNode (store s ! l) = None" by (auto simp: inv_ends_def)
  then show ?thesis unfolding chain_def by (rule walk_next_path)
qed

lemma inv_ends_last:
  assumes en: "inv_ends s" and len: "size_set s = length (chain s)"
  shows "lastNode s = headOpt (rev (chain s)) None"
proof (cases "lastNode s")
  case None
  with en len have "chain s = []" by (auto simp: inv_ends_def)
  with None show ?thesis by simp
next
  case (Some l)
  with en have l: "l \<in> set (chain s)" "nextNode (store s ! l) = None" by (auto simp: inv_ends_def)
  have "path nextNode (store s) (chain s) None" using en len by (rule inv_ends_next_path)
  then have "last (chain s) = l" using l by (rule path_None_last)
  moreover from l have "chain s \<noteq> []" by auto
  ultimately obtain bs where "chain s = bs @ [l]" by (metis append_butlast_last_id)
  then have "rev (chain s) = l # rev bs" by simp
  with Some show ?thesis by simp
qed

lemma set_inv_rep:
  assumes i: "set_inv s"
  shows "rep s (chain s)"
proof -
  let ?h = "store s" and ?as = "chain s"
  from i have ix: "inv_index s" and ch: "inv_chain s" and en: "inv_ends s" and sz: "inv_size s"
    by (simp_all add: set_inv_def)
  have len: "size_set s = length ?as" using sz by (simp add: inv_size_def)
  have first: "firstNode s = headOpt ?as None" using en len by (rule inv_ends_first)
  have np: "path nextNode ?h ?as None" using en len by (rule inv_ends_next_path)
  have last: "lastNode s = headOpt (rev ?as) None" using en len by (rule inv_ends_last)
  have pp: "path prevNode ?h (rev ?as) None"
  proof (rule next_path_prev_path [OF np])
    show "\<forall>n\<in>set ?as. \<forall>m. nextNode (?h ! n) = Some m \<longrightarrow> m \<in> set ?as \<longrightarrow> prevNode (?h ! m) = Some n"
      using inv_chain_next_prev [OF ch] by blast
    show "?as \<noteq> [] \<longrightarrow> prevNode (?h ! hd ?as) = None"
    proof
      assume "?as \<noteq> []"
      then obtain a bs where c: "?as = a # bs" by (cases ?as) auto
      with first have "firstNode s = Some a" by simp
      with en have "prevNode (?h ! a) = None" by (simp add: inv_ends_def)
      with c show "prevNode (?h ! hd ?as) = None" by simp
    qed
  qed
  have d: "distinct ?as" "\<forall>a \<in> set ?as. a < length ?h"
    using ch by (simp_all add: inv_chain_def)
  have m: "distinct (map (\<lambda>a. nodeValue (?h ! a)) ?as)" "distinct (map fst (setMap s))"
    "set (setMap s) = (\<lambda>a. (nodeValue (?h ! a), a)) ` set ?as"
    using ix by (simp_all add: inv_index_def elements_def)
  show ?thesis
    unfolding rep_def using d m first last np pp by blast
qed

lemma set_inv_iff: "set_inv s = rep s (chain s)"
  by (blast intro: rep_set_inv set_inv_rep)

section \<open>The operations keep the representation\<close>

lemma length_set_nextNode [simp]: "length (set_nextNode a p h) = length h"
  by (simp add: set_nextNode_def)

lemma length_set_prevNode [simp]: "length (set_prevNode a p h) = length h"
  by (simp add: set_prevNode_def)

lemma nth_set_nextNode:
  "set_nextNode a p h ! b = (if b = a \<and> a < length h then (h ! a)\<lparr>nextNode := p\<rparr> else h ! b)"
  by (cases "a < length h") (auto simp: set_nextNode_def nth_list_update list_update_beyond not_less)

lemma nth_set_prevNode:
  "set_prevNode a p h ! b = (if b = a \<and> a < length h then (h ! a)\<lparr>prevNode := p\<rparr> else h ! b)"
  by (cases "a < length h") (auto simp: set_prevNode_def nth_list_update list_update_beyond not_less)

lemma Map_has_iff: "Map_has m k = (k \<in> fst ` set m)"
  by (simp add: Map_has_def map_of_eq_None_iff)

lemma update_fresh: "k \<notin> fst ` set m \<Longrightarrow> AList.update k v m = m @ [(k, v)]"
  by (induction m) auto

lemma rep_has: "rep s as \<Longrightarrow> has s v = (v \<in> (\<lambda>a. nodeValue (store s ! a)) ` set as)"
  by (force simp: has_def Map_has_iff rep_def)

lemma rep_get:
  "rep s as \<Longrightarrow> (Map_get (setMap s) v = Some a) = (a \<in> set as \<and> nodeValue (store s ! a) = v)"
  by (auto simp: Map_get_def rep_def)

lemma rep_elements: "rep s as \<Longrightarrow> elements s = map (\<lambda>a. nodeValue (store s ! a)) as"
  by (simp add: elements_def rep_chain)

lemma rep_emptySet: "rep emptySet []"
  by (simp add: rep_def emptySet_def)

lemma rep_clear: "rep (clear s) []"
  by (simp add: rep_def clear_def)

text \<open>What \<open>add\<close> does to the store.\<close>

lemma add_fresh:
  assumes "\<not> has s v"
  shows "add v s =
    \<lparr>store = (case lastNode s of
        None \<Rightarrow> store s @ [newNode v]
      | Some l \<Rightarrow> set_nextNode l (Some (length (store s)))
          (set_prevNode (length (store s)) (Some l) (store s @ [newNode v]))),
     setMap = Map_set v (length (store s)) (setMap s),
     firstNode = (case firstNode s of None \<Rightarrow> Some (length (store s)) | Some f \<Rightarrow> Some f),
     lastNode = Some (length (store s))\<rparr>"
  using assms by (simp add: add_def Let_def)

lemma rep_add:
  assumes r: "rep s as" and f: "\<not> has s v"
  shows "rep (add v s) (as @ [length (store s)])"
    and "\<forall>a \<in> set as. nodeValue (store (add v s) ! a) = nodeValue (store s ! a)"
    and "nodeValue (store (add v s) ! length (store s)) = v"
proof -
  let ?h = "store s" and ?n = "length (store s)" and ?h' = "store (add v s)"
  from r have d: "distinct as" and rng: "\<forall>a \<in> set as. a < ?n"
    and np: "path nextNode ?h as None" and pp: "path prevNode ?h (rev as) None"
    and fi: "firstNode s = headOpt as None" and la: "lastNode s = headOpt (rev as) None"
    and dv: "distinct (map (\<lambda>a. nodeValue (?h ! a)) as)" and dk: "distinct (map fst (setMap s))"
    and ix: "set (setMap s) = (\<lambda>a. (nodeValue (?h ! a), a)) ` set as"
    by (simp_all add: rep_def)
  have nn: "?n \<notin> set as" using rng by auto
  have la': "lastNode s = (if as = [] then None else Some (last as))"
    using la by (cases as rule: rev_cases) simp_all
  have len: "length ?h' = Suc ?n"
    by (simp add: add_fresh [OF f] split: option.splits)
  have old: "nodeValue (?h' ! a) = nodeValue (?h ! a) \<and> prevNode (?h' ! a) = prevNode (?h ! a) \<and>
      (a \<noteq> last as \<longrightarrow> nextNode (?h' ! a) = nextNode (?h ! a))" if "a \<in> set as" for a
  proof -
    from that rng have "a < ?n" by simp
    then show ?thesis
      by (simp add: add_fresh [OF f] la' nth_set_nextNode nth_set_prevNode nth_append)
  qed
  have lastn: "nextNode (?h' ! last as) = Some ?n" if "as \<noteq> []"
  proof -
    from that rng have "last as < ?n" by simp
    with that show ?thesis
      by (simp add: add_fresh [OF f] la' nth_set_nextNode nth_set_prevNode nth_append)
  qed
  have new: "?h' ! ?n = \<lparr>nodeValue = v, nextNode = None, prevNode = headOpt (rev as) None\<rparr>"
  proof (cases "as = []")
    case True
    then show ?thesis by (simp add: add_fresh [OF f] la' newNode_def)
  next
    case False
    with rng have "last as < ?n" by simp
    with False show ?thesis
      by (cases as rule: rev_cases)
        (simp_all add: add_fresh [OF f] la' nth_set_nextNode nth_set_prevNode nth_append newNode_def)
  qed
  show vals: "\<forall>a \<in> set as. nodeValue (?h' ! a) = nodeValue (?h ! a)" using old by simp
  show newv: "nodeValue (?h' ! ?n) = v" using new by simp
  have np': "path nextNode ?h' (as @ [?n]) None"
  proof -
    have "path nextNode ?h' as (Some ?n)"
    proof (cases "as = []")
      case True
      then show ?thesis by simp
    next
      case False
      from np False show ?thesis
      proof (rule path_relink)
        show "\<forall>a\<in>set (butlast as). nextNode (?h' ! a) = nextNode (?h ! a)"
        proof
          fix a assume a: "a \<in> set (butlast as)"
          then have "a \<in> set as" by (rule in_set_butlastD)
          moreover from a d False have "a \<noteq> last as"
            by (metis append_butlast_last_id distinct_append distinct.simps(2) disjoint_iff list.set_intros(1))
          ultimately show "nextNode (?h' ! a) = nextNode (?h ! a)" using old by simp
        qed
        show "nextNode (?h' ! last as) = Some ?n" using False by (rule lastn)
      qed
    qed
    then show ?thesis using new by (simp add: path_append)
  qed
  have pp': "path prevNode ?h' (rev (as @ [?n])) None"
  proof -
    have "path prevNode ?h' (rev as) None = path prevNode ?h (rev as) None"
      by (rule path_frame) (use old in simp)
    with pp new show ?thesis by simp
  qed
  have fi': "firstNode (add v s) = headOpt (as @ [?n]) None"
    by (cases as) (simp_all add: add_fresh [OF f] fi)
  have la'': "lastNode (add v s) = headOpt (rev (as @ [?n])) None"
    by (simp add: add_fresh [OF f])
  have fresh: "v \<notin> fst ` set (setMap s)" using f by (simp add: has_def Map_has_iff)
  have sm: "setMap (add v s) = setMap s @ [(v, ?n)]"
    using fresh by (simp add: add_fresh [OF f] Map_set_def update_fresh)
  have dk': "distinct (map fst (setMap (add v s)))" using dk fresh by (simp add: sm)
  have vm: "map (\<lambda>a. nodeValue (?h' ! a)) (as @ [?n]) = map (\<lambda>a. nodeValue (?h ! a)) as @ [v]"
    using vals newv by simp
  have "v \<notin> (\<lambda>a. nodeValue (?h ! a)) ` set as" using f rep_has [OF r] by simp
  then have dv': "distinct (map (\<lambda>a. nodeValue (?h' ! a)) (as @ [?n]))"
    using dv unfolding vm by simp
  have ix': "set (setMap (add v s)) = (\<lambda>a. (nodeValue (?h' ! a), a)) ` set (as @ [?n])"
    using ix vals newv by (auto simp: sm)
  show "rep (add v s) (as @ [?n])"
    unfolding rep_def using d nn rng len np' pp' fi' la'' dv' dk' ix'
    by (auto simp: less_Suc_eq)
qed

lemma butlast_neq_last: "distinct xs \<Longrightarrow> x \<in> set (butlast xs) \<Longrightarrow> x \<noteq> last xs"
  by (cases xs rule: rev_cases) auto

lemma addFirst_fresh:
  assumes "\<not> has s v"
  shows "addFirst v s =
    \<lparr>store = (case firstNode s of
        None \<Rightarrow> store s @ [newNode v]
      | Some f \<Rightarrow> set_prevNode f (Some (length (store s)))
          (set_nextNode (length (store s)) (Some f) (store s @ [newNode v]))),
     setMap = Map_set v (length (store s)) (setMap s),
     firstNode = Some (length (store s)),
     lastNode = (case lastNode s of None \<Rightarrow> Some (length (store s)) | Some l \<Rightarrow> Some l)\<rparr>"
  using assms by (simp add: addFirst_def Let_def)

lemma rep_addFirst:
  assumes r: "rep s as" and f: "\<not> has s v"
  shows "rep (addFirst v s) (length (store s) # as)"
    and "\<forall>a \<in> set as. nodeValue (store (addFirst v s) ! a) = nodeValue (store s ! a)"
    and "nodeValue (store (addFirst v s) ! length (store s)) = v"
proof -
  let ?h = "store s" and ?n = "length (store s)" and ?h' = "store (addFirst v s)"
  from r have d: "distinct as" and rng: "\<forall>a \<in> set as. a < ?n"
    and np: "path nextNode ?h as None" and pp: "path prevNode ?h (rev as) None"
    and fi: "firstNode s = headOpt as None" and la: "lastNode s = headOpt (rev as) None"
    and dv: "distinct (map (\<lambda>a. nodeValue (?h ! a)) as)" and dk: "distinct (map fst (setMap s))"
    and ix: "set (setMap s) = (\<lambda>a. (nodeValue (?h ! a), a)) ` set as"
    by (simp_all add: rep_def)
  have nn: "?n \<notin> set as" using rng by auto
  have fi': "firstNode s = (if as = [] then None else Some (hd as))"
    using fi by (cases as) simp_all
  have len: "length ?h' = Suc ?n"
    by (simp add: addFirst_fresh [OF f] split: option.splits)
  have old: "nodeValue (?h' ! a) = nodeValue (?h ! a) \<and> nextNode (?h' ! a) = nextNode (?h ! a) \<and>
      (a \<noteq> hd as \<longrightarrow> prevNode (?h' ! a) = prevNode (?h ! a))" if "a \<in> set as" for a
  proof -
    from that rng have "a < ?n" by simp
    then show ?thesis
      by (simp add: addFirst_fresh [OF f] fi' nth_set_nextNode nth_set_prevNode nth_append)
  qed
  have firstp: "prevNode (?h' ! hd as) = Some ?n" if "as \<noteq> []"
  proof -
    from that rng have "hd as < ?n" by simp
    with that show ?thesis
      by (simp add: addFirst_fresh [OF f] fi' nth_set_nextNode nth_set_prevNode nth_append)
  qed
  have new: "?h' ! ?n = \<lparr>nodeValue = v, nextNode = headOpt as None, prevNode = None\<rparr>"
  proof (cases "as = []")
    case True
    then show ?thesis by (simp add: addFirst_fresh [OF f] fi' newNode_def)
  next
    case False
    with rng have "hd as < ?n" by simp
    with False show ?thesis
      by (cases as)
        (simp_all add: addFirst_fresh [OF f] fi' nth_set_nextNode nth_set_prevNode nth_append newNode_def)
  qed
  show vals: "\<forall>a \<in> set as. nodeValue (?h' ! a) = nodeValue (?h ! a)" using old by simp
  show newv: "nodeValue (?h' ! ?n) = v" using new by simp
  have pp': "path prevNode ?h' (rev (?n # as)) None"
  proof -
    have "path prevNode ?h' (rev as) (Some ?n)"
    proof (cases "as = []")
      case True
      then show ?thesis by simp
    next
      case False
      have hl: "last (rev as) = hd as" using False by (simp add: last_rev)
      from pp show ?thesis
      proof (rule path_relink)
        show "rev as \<noteq> []" using False by simp
        show "\<forall>a\<in>set (butlast (rev as)). prevNode (?h' ! a) = prevNode (?h ! a)"
        proof
          fix a assume a: "a \<in> set (butlast (rev as))"
          then have "a \<in> set as" using in_set_butlastD by fastforce
          moreover from a d have "a \<noteq> last (rev as)" by (intro butlast_neq_last) simp_all
          ultimately show "prevNode (?h' ! a) = prevNode (?h ! a)" using old hl by simp
        qed
        show "prevNode (?h' ! last (rev as)) = Some ?n" using firstp [OF False] hl by simp
      qed
    qed
    then show ?thesis using new by (simp add: path_append)
  qed
  have np': "path nextNode ?h' (?n # as) None"
  proof -
    have "path nextNode ?h' as None = path nextNode ?h as None"
      by (rule path_frame) (use old in simp)
    with np new show ?thesis by simp
  qed
  have fi'': "firstNode (addFirst v s) = headOpt (?n # as) None"
    by (simp add: addFirst_fresh [OF f])
  have la'': "lastNode (addFirst v s) = headOpt (rev (?n # as)) None"
    by (cases as rule: rev_cases) (simp_all add: addFirst_fresh [OF f] la)
  have fresh: "v \<notin> fst ` set (setMap s)" using f by (simp add: has_def Map_has_iff)
  have sm: "setMap (addFirst v s) = setMap s @ [(v, ?n)]"
    using fresh by (simp add: addFirst_fresh [OF f] Map_set_def update_fresh)
  have dk': "distinct (map fst (setMap (addFirst v s)))" using dk fresh by (simp add: sm)
  have vm: "map (\<lambda>a. nodeValue (?h' ! a)) (?n # as) = v # map (\<lambda>a. nodeValue (?h ! a)) as"
    using vals newv by simp
  have "v \<notin> (\<lambda>a. nodeValue (?h ! a)) ` set as" using f rep_has [OF r] by simp
  then have dv': "distinct (map (\<lambda>a. nodeValue (?h' ! a)) (?n # as))"
    using dv unfolding vm by simp
  have ix': "set (setMap (addFirst v s)) = (\<lambda>a. (nodeValue (?h' ! a), a)) ` set (?n # as)"
    using ix vals newv by (auto simp: sm)
  show "rep (addFirst v s) (?n # as)"
    unfolding rep_def using d nn rng len np' pp' fi'' la'' dv' dk' ix'
    by (auto simp: less_Suc_eq)
qed

lemma path_splice:
  assumes p: "path f h (pre @ a # post) q" and d: "distinct (pre @ a # post)"
    and same: "\<forall>x \<in> set (pre @ post). (pre = [] \<or> x \<noteq> last pre) \<longrightarrow> f (h' ! x) = f (h ! x)"
    and link: "pre \<noteq> [] \<longrightarrow> f (h' ! last pre) = headOpt post q"
  shows "path f h' (pre @ post) q"
proof -
  from p have p1: "path f h pre (Some a)" and p2: "path f h post q"
    by (simp_all add: path_append)
  have "path f h' post q = path f h post q"
  proof (rule path_frame, rule ballI)
    fix x assume x: "x \<in> set post"
    have "pre = [] \<or> x \<noteq> last pre"
    proof (cases "pre = []")
      case False
      then have "last pre \<in> set pre" by simp
      with x d show ?thesis by auto
    qed simp
    with x same show "f (h' ! x) = f (h ! x)" by auto
  qed
  with p2 have q2: "path f h' post q" by simp
  have q1: "path f h' pre (headOpt post q)"
  proof (cases "pre = []")
    case True
    then show ?thesis by simp
  next
    case False
    from p1 False show ?thesis
    proof (rule path_relink)
      show "\<forall>x\<in>set (butlast pre). f (h' ! x) = f (h ! x)"
      proof
        fix x assume x: "x \<in> set (butlast pre)"
        with d have "x \<noteq> last pre" by (intro butlast_neq_last) simp_all
        moreover from x have "x \<in> set pre" by (rule in_set_butlastD)
        ultimately show "f (h' ! x) = f (h ! x)" using same by auto
      qed
      show "f (h' ! last pre) = headOpt post q" using link False by simp
    qed
  qed
  from q1 q2 show ?thesis by (simp add: path_append)
qed

lemma delete_absent: "\<not> has s v \<Longrightarrow> delete v s = (False, s)"
  by (simp add: delete_def has_def Map_has_def Map_get_def)

lemma delete_present:
  assumes "Map_get (setMap s) v = Some a"
    and "prevNode (store s ! a) = p" and "nextNode (store s ! a) = n"
  shows "delete v s =
    (True,
     \<lparr>store = (case (p, n) of
         (Some p', Some n') \<Rightarrow> set_prevNode n' (Some p') (set_nextNode p' (Some n') (store s))
       | (Some p', None) \<Rightarrow> set_nextNode p' None (store s)
       | (None, Some n') \<Rightarrow> set_prevNode n' None (store s)
       | (None, None) \<Rightarrow> store s),
      setMap = AList.delete v (setMap s),
      firstNode = (case (p, n) of
         (Some p', _) \<Rightarrow> firstNode s
       | (None, Some n') \<Rightarrow> Some n'
       | (None, None) \<Rightarrow> None),
      lastNode = (case (p, n) of
         (Some p', Some n') \<Rightarrow> lastNode s
       | (Some p', None) \<Rightarrow> Some p'
       | (None, Some n') \<Rightarrow> lastNode s
       | (None, None) \<Rightarrow> None)\<rparr>)"
  using assms
  by (cases p; cases n) (simp_all add: delete_def Map_delete_def Map_has_def Map_get_def Let_def)

lemma headOpt_rev_snoc [simp]: "headOpt (rev (xs @ [x])) q = Some x"
  by simp

lemma rep_delete:
  assumes r: "rep s (pre @ a # post)" and v: "nodeValue (store s ! a) = v"
  shows "fst (delete v s)"
    and "rep (snd (delete v s)) (pre @ post)"
    and "\<forall>x. nodeValue (store (snd (delete v s)) ! x) = nodeValue (store s ! x)"
proof -
  let ?h = "store s" and ?s' = "snd (delete v s)"
  let ?h' = "store ?s'"
  let ?p = "headOpt (rev pre) None" and ?n = "headOpt post None"
  from r have d: "distinct (pre @ a # post)" and rng: "\<forall>x \<in> set (pre @ a # post). x < length ?h"
    and np: "path nextNode ?h (pre @ a # post) None"
    and pp: "path prevNode ?h (rev (pre @ a # post)) None"
    and fi: "firstNode s = headOpt (pre @ a # post) None"
    and la: "lastNode s = headOpt (rev (pre @ a # post)) None"
    and dv: "distinct (map (\<lambda>x. nodeValue (?h ! x)) (pre @ a # post))"
    and dk: "distinct (map fst (setMap s))"
    and ix: "set (setMap s) = (\<lambda>x. (nodeValue (?h ! x), x)) ` set (pre @ a # post)"
    by (simp_all add: rep_def)
  have get: "Map_get (setMap s) v = Some a" using rep_get [OF r, of v a] v by simp
  have na: "nextNode (?h ! a) = ?n" using np by (rule path_nth)
  have pp2: "path prevNode ?h (rev post @ a # rev pre) None" using pp by simp
  have pa: "prevNode (?h ! a) = ?p" using pp2 by (rule path_nth)
  note del = delete_present [OF get pa na]
  show "fst (delete v s)" by (simp add: del)
  have len: "length ?h' = length ?h"
    by (simp add: del split: option.splits)
  show vals: "\<forall>x. nodeValue (?h' ! x) = nodeValue (?h ! x)"
    by (simp add: del nth_set_nextNode nth_set_prevNode split: option.splits)
  have nx: "\<forall>x. (pre = [] \<or> x \<noteq> last pre) \<longrightarrow> nextNode (?h' ! x) = nextNode (?h ! x)"
    by (cases pre rule: rev_cases; cases post)
      (simp_all add: del nth_set_nextNode nth_set_prevNode)
  have px: "\<forall>x. (post = [] \<or> x \<noteq> hd post) \<longrightarrow> prevNode (?h' ! x) = prevNode (?h ! x)"
    by (cases pre rule: rev_cases; cases post)
      (simp_all add: del nth_set_nextNode nth_set_prevNode)
  have nl: "pre \<noteq> [] \<longrightarrow> nextNode (?h' ! last pre) = ?n"
    using rng d
    by (cases pre rule: rev_cases; cases post)
      (auto simp: del nth_set_nextNode nth_set_prevNode)
  have pl: "post \<noteq> [] \<longrightarrow> prevNode (?h' ! hd post) = ?p"
    using rng d
    by (cases pre rule: rev_cases; cases post)
      (auto simp: del nth_set_nextNode nth_set_prevNode)
  have np': "path nextNode ?h' (pre @ post) None"
    using np d
  proof (rule path_splice)
    show "\<forall>x\<in>set (pre @ post). (pre = [] \<or> x \<noteq> last pre) \<longrightarrow> nextNode (?h' ! x) = nextNode (?h ! x)"
      using nx by blast
    show "pre \<noteq> [] \<longrightarrow> nextNode (?h' ! last pre) = headOpt post None" by (rule nl)
  qed
  have pp': "path prevNode ?h' (rev post @ rev pre) None"
    using pp2
  proof (rule path_splice)
    show "distinct (rev post @ a # rev pre)" using d by auto
    show "\<forall>x\<in>set (rev post @ rev pre). (rev post = [] \<or> x \<noteq> last (rev post)) \<longrightarrow>
        prevNode (?h' ! x) = prevNode (?h ! x)"
      using px by (cases post) (auto simp: last_rev)
    show "rev post \<noteq> [] \<longrightarrow> prevNode (?h' ! last (rev post)) = headOpt (rev pre) None"
      using pl by (cases post) (auto simp: last_rev)
  qed
  have fi': "firstNode ?s' = headOpt (pre @ post) None"
    using fi by (cases pre rule: rev_cases; cases post) (simp_all add: del headOpt_append)
  have la': "lastNode ?s' = headOpt (rev (pre @ post)) None"
    using la by (cases pre rule: rev_cases; cases post) (simp_all add: del headOpt_append)
  have sm: "setMap ?s' = AList.delete v (setMap s)" by (simp add: del)
  have dk': "distinct (map fst (setMap ?s'))" using dk by (simp add: sm distinct_delete)
  have dv': "distinct (map (\<lambda>x. nodeValue (?h' ! x)) (pre @ post))"
    using dv vals by simp
  have "v \<notin> (\<lambda>x. nodeValue (?h ! x)) ` set (pre @ post)" using dv v by auto
  then have other: "nodeValue (?h ! x) \<noteq> v" if "x \<in> set (pre @ post)" for x
    using that by blast
  have ix': "set (setMap ?s') = (\<lambda>x. (nodeValue (?h' ! x), x)) ` set (pre @ post)"
  proof -
    have "set (setMap ?s') = {e \<in> set (setMap s). fst e \<noteq> v}"
      by (auto simp: sm AList.delete_eq)
    also have "\<dots> = (\<lambda>x. (nodeValue (?h ! x), x)) ` set (pre @ post)"
      using other v unfolding ix by auto
    finally show ?thesis using vals by simp
  qed
  show "rep ?s' (pre @ post)"
    unfolding rep_def using d rng len np' pp' fi' la' dv' dk' ix'
    by auto
qed

section \<open>The operations on well-formed sets\<close>

lemma set_inv_has: "set_inv s \<Longrightarrow> has s v = (v \<in> set (elements s))"
  using rep_has [OF set_inv_rep, of s v] by (simp add: elements_def)

lemma set_inv_emptySet: "set_inv emptySet"
  using rep_emptySet by (rule rep_set_inv)

lemma set_inv_clear: "set_inv (clear s)"
  using rep_clear by (rule rep_set_inv)

lemma set_inv_add:
  assumes "set_inv s"
  shows "set_inv (add v s)"
    and "elements (add v s) = (if has s v then elements s else elements s @ [v])"
proof -
  from assms have r: "rep s (chain s)" by (rule set_inv_rep)
  show "set_inv (add v s)"
  proof (cases "has s v")
    case True
    with assms show ?thesis by (simp add: add_def)
  next
    case False
    with r have "rep (add v s) (chain s @ [length (store s)])" by (rule rep_add)
    then show ?thesis by (rule rep_set_inv)
  qed
  show "elements (add v s) = (if has s v then elements s else elements s @ [v])"
  proof (cases "has s v")
    case True
    then show ?thesis by (simp add: add_def)
  next
    case False
    note ra = rep_add [OF r False]
    have "elements (add v s) =
        map (\<lambda>a. nodeValue (store (add v s) ! a)) (chain s @ [length (store s)])"
      using ra(1) by (rule rep_elements)
    also have "\<dots> = map (\<lambda>a. nodeValue (store s ! a)) (chain s) @ [v]"
      using ra(2,3) by simp
    finally show ?thesis using False by (simp add: elements_def)
  qed
qed

lemma set_inv_addFirst:
  assumes "set_inv s"
  shows "set_inv (addFirst v s)"
    and "elements (addFirst v s) = (if has s v then elements s else v # elements s)"
proof -
  from assms have r: "rep s (chain s)" by (rule set_inv_rep)
  show "set_inv (addFirst v s)"
  proof (cases "has s v")
    case True
    with assms show ?thesis by (simp add: addFirst_def)
  next
    case False
    with r have "rep (addFirst v s) (length (store s) # chain s)" by (rule rep_addFirst)
    then show ?thesis by (rule rep_set_inv)
  qed
  show "elements (addFirst v s) = (if has s v then elements s else v # elements s)"
  proof (cases "has s v")
    case True
    then show ?thesis by (simp add: addFirst_def)
  next
    case False
    note ra = rep_addFirst [OF r False]
    have "elements (addFirst v s) =
        map (\<lambda>a. nodeValue (store (addFirst v s) ! a)) (length (store s) # chain s)"
      using ra(1) by (rule rep_elements)
    also have "\<dots> = v # map (\<lambda>a. nodeValue (store s ! a)) (chain s)"
      using ra(2,3) by simp
    finally show ?thesis using False by (simp add: elements_def)
  qed
qed

lemma set_inv_delete:
  assumes i: "set_inv s"
  shows "set_inv (snd (delete v s))"
    and "fst (delete v s) = has s v"
    and "elements (snd (delete v s)) = filter (\<lambda>x. x \<noteq> v) (elements s)"
    and "size_set (snd (delete v s)) = length (filter (\<lambda>x. x \<noteq> v) (elements s))"
proof -
  from i have r: "rep s (chain s)" by (rule set_inv_rep)
  have e: "elements s = map (\<lambda>a. nodeValue (store s ! a)) (chain s)" by (simp add: elements_def)
  have dv: "distinct (elements s)" using i by (simp add: set_inv_def inv_index_def)
  have "set_inv (snd (delete v s)) \<and> fst (delete v s) = has s v \<and>
      elements (snd (delete v s)) = filter (\<lambda>x. x \<noteq> v) (elements s) \<and>
      size_set (snd (delete v s)) = length (filter (\<lambda>x. x \<noteq> v) (elements s))"
  proof (cases "has s v")
    case False
    then have "delete v s = (False, s)" by (rule delete_absent)
    moreover from False have "v \<notin> set (elements s)" using set_inv_has [OF i] by simp
    then have "filter (\<lambda>x. x \<noteq> v) (elements s) = elements s" by (auto simp: filter_id_conv)
    moreover have "size_set s = length (elements s)" using rep_size [OF r] by (simp add: e)
    ultimately show ?thesis using i False by simp
  next
    case True
    then have "v \<in> (\<lambda>a. nodeValue (store s ! a)) ` set (chain s)" using rep_has [OF r] by simp
    then obtain a where a: "a \<in> set (chain s)" "nodeValue (store s ! a) = v" by auto
    from a(1) obtain pre post where c: "chain s = pre @ a # post" by (auto dest: split_list)
    from r c have r': "rep s (pre @ a # post)" by simp
    note rd = rep_delete [OF r' a(2)]
    let ?g = "\<lambda>x. nodeValue (store s ! x)"
    have "elements (snd (delete v s)) =
        map (\<lambda>x. nodeValue (store (snd (delete v s)) ! x)) (pre @ post)"
      using rd(2) by (rule rep_elements)
    then have el: "elements (snd (delete v s)) = map ?g (pre @ post)"
      using rd(3) by simp
    have es: "elements s = map ?g pre @ v # map ?g post" using a(2) by (simp add: e c)
    from dv have "v \<notin> set (map ?g pre)" "v \<notin> set (map ?g post)"
      unfolding es by auto
    then have "filter (\<lambda>x. x \<noteq> v) (map ?g pre) = map ?g pre"
      "filter (\<lambda>x. x \<noteq> v) (map ?g post) = map ?g post"
      by (auto simp: filter_id_conv)
    then have fl: "filter (\<lambda>x. x \<noteq> v) (elements s) = map ?g (pre @ post)"
      unfolding es by simp
    have sz: "size_set (snd (delete v s)) = length (pre @ post)" using rd(2) by (rule rep_size)
    have "set_inv (snd (delete v s))" using rd(2) by (rule rep_set_inv)
    moreover have "fst (delete v s) = has s v" using rd(1) True by simp
    moreover have "elements (snd (delete v s)) = filter (\<lambda>x. x \<noteq> v) (elements s)"
      unfolding el fl ..
    moreover have "size_set (snd (delete v s)) = length (filter (\<lambda>x. x \<noteq> v) (elements s))"
      unfolding sz fl by simp
    ultimately show ?thesis by blast
  qed
  then show "set_inv (snd (delete v s))" "fst (delete v s) = has s v"
    "elements (snd (delete v s)) = filter (\<lambda>x. x \<noteq> v) (elements s)"
    "size_set (snd (delete v s)) = length (filter (\<lambda>x. x \<noteq> v) (elements s))"
    by simp_all
qed

lemma set_inv_fold_add: "set_inv s \<Longrightarrow> set_inv (fold add xs s)"
  by (induction xs arbitrary: s) (simp_all add: set_inv_add(1))

lemma set_inv_construct: "set_inv (construct iterable)"
  by (cases iterable) (simp_all add: construct_def set_inv_emptySet set_inv_fold_add)

lemma set_inv_size: "set_inv s \<Longrightarrow> size_set s = length (elements s)"
  by (simp add: set_inv_def inv_size_def elements_def)

lemma set_inv_empty_ends:
  assumes "set_inv s"
  shows "(firstNode s = None) = (elements s = []) \<and> (lastNode s = None) = (elements s = [])"
proof -
  have sz: "size_set s = length (elements s)" using assms by (rule set_inv_size)
  from assms have "(firstNode s = None) = (size_set s = 0)" "(lastNode s = None) = (size_set s = 0)"
    by (simp_all add: set_inv_def inv_ends_def)
  then show ?thesis unfolding sz by simp
qed

lemma filter_neq_id: "v \<notin> set xs \<Longrightarrow> filter (\<lambda>x. x \<noteq> v) xs = xs"
  by (induction xs) auto

lemma length_filter_neq:
  "distinct xs \<Longrightarrow> v \<in> set xs \<Longrightarrow> Suc (length (filter (\<lambda>x. x \<noteq> v) xs)) = length xs"
  by (induction xs) (auto simp: filter_neq_id)

lemma set_inv_distinct: "set_inv s \<Longrightarrow> distinct (elements s)"
  by (simp add: set_inv_def inv_index_def)

section \<open>Traversals\<close>

lemma applyGetter_outOf: "applyGetter g node = outOf g (nodeValue node)"
  by (cases g) simp_all

lemma resultDone_iteratorResult [simp]: "resultDone (iteratorResult v) = (v = Single Undefined)"
  by (simp add: iteratorResult_def)

lemma resultValue_iteratorResult [simp]: "resultValue (iteratorResult v) = v"
  by (simp add: iteratorResult_def)

lemma outOf_done: "(outOf g x = Single Undefined) = (g = NodeValue \<and> x = Undefined)"
  by (cases g) simp_all

lemma cursor_next_None:
  "currentNode c = None \<Longrightarrow> cursor_next h c = (doneResult, c)"
  by (simp add: cursor_next_def doneResult_def)

lemma cursor_next_Some:
  "currentNode c = Some a \<Longrightarrow>
   cursor_next h c =
     (iteratorResult (outOf (getIteratorValue c) (nodeValue (h ! a))),
      c\<lparr>currentNode := dirField (forwards c) (h ! a)\<rparr>)"
  by (simp add: cursor_next_def dirField_def applyGetter_outOf)

lemma steps_exhausted:
  "currentNode c = None \<Longrightarrow> steps hs c = (replicate (length hs) doneResult, c)"
  by (induction hs) (simp_all add: cursor_next_None)

lemma steps_path:
  "path (dirField (forwards c)) h as None \<Longrightarrow> currentNode c = headOpt as None \<Longrightarrow>
   steps (replicate n h) c =
     (map (\<lambda>a. iteratorResult (outOf (getIteratorValue c) (nodeValue (h ! a)))) (take n as) @
        replicate (n - length as) doneResult,
      c\<lparr>currentNode := headOpt (drop n as) None\<rparr>)"
proof (induction n arbitrary: as c)
  case 0
  then show ?case by simp
next
  case (Suc n)
  show ?case
  proof (cases as)
    case Nil
    with Suc.prems have "currentNode c = None" by simp
    then show ?thesis using Nil steps_exhausted [of c "replicate (Suc n) h"] by simp
  next
    case (Cons a bs)
    let ?c' = "c\<lparr>currentNode := headOpt bs None\<rparr>"
    from Suc.prems Cons have cur: "currentNode c = Some a"
      and nx: "dirField (forwards c) (h ! a) = headOpt bs None"
      and p: "path (dirField (forwards ?c')) h bs None"
      by simp_all
    have "steps (replicate n h) ?c' =
      (map (\<lambda>a. iteratorResult (outOf (getIteratorValue ?c') (nodeValue (h ! a)))) (take n bs) @
         replicate (n - length bs) doneResult,
       ?c'\<lparr>currentNode := headOpt (drop n bs) None\<rparr>)"
      using p by (rule Suc.IH) simp
    then show ?thesis using Cons cur nx by (simp add: cursor_next_Some)
  qed
qed

lemma collect_path:
  "path (dirField (forwards c)) h as None \<Longrightarrow> currentNode c = headOpt as None \<Longrightarrow>
   collect h c =
     Some (takeWhile (\<lambda>v. v \<noteq> Single Undefined)
       (map (\<lambda>a. outOf (getIteratorValue c) (nodeValue (h ! a))) as))"
proof (induction as arbitrary: c)
  case Nil
  then have "currentNode c = None" by simp
  then show ?case by (subst collect.simps) (simp add: cursor_next_None doneResult_def)
next
  case (Cons a bs)
  let ?c' = "c\<lparr>currentNode := headOpt bs None\<rparr>"
  from Cons.prems have cur: "currentNode c = Some a"
    and nx: "dirField (forwards c) (h ! a) = headOpt bs None"
    and p: "path (dirField (forwards ?c')) h bs None"
    by simp_all
  have ih: "collect h ?c' =
     Some (takeWhile (\<lambda>v. v \<noteq> Single Undefined)
       (map (\<lambda>a. outOf (getIteratorValue ?c') (nodeValue (h ! a))) bs))"
    using p by (rule Cons.IH) simp
  show ?case
    by (subst collect.simps) (simp add: cursor_next_Some cur nx ih)
qed

lemma dirField_simps [simp]: "dirField True = nextNode" "dirField False = prevNode"
  by (simp_all add: dirField_def fun_eq_iff)

lemma takeWhile_neq: "x \<notin> set xs \<Longrightarrow> takeWhile (\<lambda>y. y \<noteq> x) (xs @ x # ys) = xs"
  by (induction xs) auto

lemma takeWhile_all: "\<forall>x \<in> set xs. P x \<Longrightarrow> takeWhile P xs = xs"
  by (induction xs) auto


lemma rep_forward_path: "rep s (pre @ a # post) \<Longrightarrow> path nextNode (store s) (a # post) None"
  by (simp add: rep_def path_append)


text \<open>The methods of a cursor change \<open>currentNode\<close> and \<open>forwards\<close> only.\<close>

lemma reverse_after_next:
  "cursor_reverseIterator (snd (cursor_next h c)) = cursor_reverseIterator c"
  by (simp add: cursor_next_def cursor_reverseIterator_def split: option.splits)

lemma reverse_idem:
  "cursor_reverseIterator (cursor_reverseIterator c) = cursor_reverseIterator c"
  by (cases "startNode c") (simp_all add: cursor_reverseIterator_def)

lemma snd_run_Next: "snd (run h (Next # acts) c) = snd (run h acts (snd (cursor_next h c)))"
  by (simp split: prod.splits)

lemma snd_run_Reverse: "snd (run h (Reverse # acts) c) = snd (run h acts (cursor_reverseIterator c))"
  by simp

lemma reverse_after_run:
  "cursor_reverseIterator (snd (run h acts c)) = cursor_reverseIterator c"
proof (induction acts arbitrary: c)
  case Nil
  then show ?case by simp
next
  case (Cons act acts)
  then show ?case
    by (cases act) (simp_all only: snd_run_Next snd_run_Reverse reverse_after_next reverse_idem)
qed

lemma getter_after_run: "getIteratorValue (snd (run h acts c)) = getIteratorValue c"
proof -
  have "getIteratorValue (cursor_reverseIterator (snd (run h acts c))) =
      getIteratorValue (cursor_reverseIterator c)"
    by (simp only: reverse_after_run)
  then show ?thesis by (simp add: cursor_reverseIterator_def)
qed

text \<open>A cursor made from a well-formed set stays on its chain.\<close>

lemma on_chain_next:
  assumes r: "rep s as" and o: "on_chain as c"
  shows "on_chain as (snd (cursor_next (store s) c))"
proof (cases "currentNode c")
  case None
  with o show ?thesis by (simp add: cursor_next_None)
next
  case (Some a)
  with o have a: "a \<in> set as" by (simp add: on_chain_def)
  have "case dirField (forwards c) (store s ! a) of None \<Rightarrow> True | Some m \<Rightarrow> m \<in> set as"
    using rep_next_prev [OF r a] rep_prev_next [OF r a]
    by (cases "forwards c") (auto split: option.splits)
  with o Some show ?thesis by (simp add: cursor_next_Some on_chain_def)
qed

lemma on_chain_reverse: "on_chain as c \<Longrightarrow> on_chain as (cursor_reverseIterator c)"
  by (auto simp: on_chain_def cursor_reverseIterator_def split: option.splits)

lemma on_chain_run:
  "rep s as \<Longrightarrow> on_chain as c \<Longrightarrow> on_chain as (snd (run (store s) acts c))"
proof (induction acts arbitrary: c)
  case Nil
  then show ?case by simp
next
  case (Cons act acts)
  show ?case
  proof (cases act)
    case Next
    have "on_chain as (snd (cursor_next (store s) c))" using Cons.prems by (rule on_chain_next)
    with Cons.prems(1) have "on_chain as (snd (run (store s) acts (snd (cursor_next (store s) c))))"
      by (rule Cons.IH)
    with Next show ?thesis by (simp only: snd_run_Next)
  next
    case Reverse
    have "on_chain as (cursor_reverseIterator c)" using Cons.prems(2) by (rule on_chain_reverse)
    with Cons.prems(1) have "on_chain as (snd (run (store s) acts (cursor_reverseIterator c)))"
      by (rule Cons.IH)
    with Reverse show ?thesis by (simp only: snd_run_Reverse)
  qed
qed

lemma on_chain_iterableIterator:
  assumes r: "rep s as" and st: "case start of None \<Rightarrow> True | Some a \<Rightarrow> a \<in> set as"
  shows "on_chain as (iterableIterator g start s)"
proof -
  have "case firstNode s of None \<Rightarrow> True | Some a \<Rightarrow> a \<in> set as"
    using rep_first [OF r] by (auto split: option.splits)
  moreover have "case lastNode s of None \<Rightarrow> True | Some a \<Rightarrow> a \<in> set as"
    using rep_last [OF r] by (auto split: option.splits)
  ultimately show ?thesis using st
    by (auto simp: on_chain_def iterableIterator_def split: option.splits)
qed

lemma on_chain_created:
  assumes i: "set_inv s"
  shows "on_chain (chain s) (values_set s)" "on_chain (chain s) (entries s)"
    "on_chain (chain s) (iteratorFor v s)" "on_chain (chain s) (reverseIterator s)"
proof -
  from i have r: "rep s (chain s)" by (rule set_inv_rep)
  show v: "on_chain (chain s) (values_set s)" unfolding values_set_def
    using r by (rule on_chain_iterableIterator) simp
  show "on_chain (chain s) (entries s)" unfolding entries_def
    using r by (rule on_chain_iterableIterator) simp
  show "on_chain (chain s) (iteratorFor v s)" unfolding iteratorFor_def
    using r
  proof (rule on_chain_iterableIterator)
    show "case Map_get (setMap s) v of None \<Rightarrow> True | Some a \<Rightarrow> a \<in> set (chain s)"
      using rep_get [OF r, of v] by (auto split: option.splits)
  qed
  show "on_chain (chain s) (reverseIterator s)" unfolding reverseIterator_def
    using v by (rule on_chain_reverse)
qed

lemma traverse:
  assumes "path (dirField (forwards c)) h as None" "currentNode c = headOpt as None"
    and xs: "xs = map (\<lambda>a. nodeValue (h ! a)) as"
  shows "fst (steps (replicate n h) c) =
      map (\<lambda>x. iteratorResult (outOf (getIteratorValue c) x)) (take n xs) @
        replicate (n - length xs) doneResult"
    and "collect h c =
      Some (takeWhile (\<lambda>v. v \<noteq> Single Undefined) (map (outOf (getIteratorValue c)) xs))"
proof -
  show "fst (steps (replicate n h) c) =
      map (\<lambda>x. iteratorResult (outOf (getIteratorValue c) x)) (take n xs) @
        replicate (n - length xs) doneResult"
    unfolding xs using steps_path [OF assms(1,2), of n] by (simp add: take_map comp_def)
  show "collect h c =
      Some (takeWhile (\<lambda>v. v \<noteq> Single Undefined) (map (outOf (getIteratorValue c)) xs))"
    unfolding xs using collect_path [OF assms(1,2)] by (simp add: comp_def)
qed

lemma traverse_forward:
  assumes i: "set_inv s" and c: "forwards c" "currentNode c = firstNode s"
  shows "fst (steps (replicate n (store s)) c) =
      map (\<lambda>x. iteratorResult (outOf (getIteratorValue c) x)) (take n (elements s)) @
        replicate (n - length (elements s)) doneResult"
    and "collect (store s) c =
      Some (takeWhile (\<lambda>v. v \<noteq> Single Undefined) (map (outOf (getIteratorValue c)) (elements s)))"
proof -
  from i have r: "rep s (chain s)" by (rule set_inv_rep)
  have p: "path (dirField (forwards c)) (store s) (chain s) None" using r c(1) by (simp add: rep_def)
  have h: "currentNode c = headOpt (chain s) None" using r c(2) by (simp add: rep_def)
  have e: "elements s = map (\<lambda>a. nodeValue (store s ! a)) (chain s)" by (simp add: elements_def)
  show "fst (steps (replicate n (store s)) c) =
      map (\<lambda>x. iteratorResult (outOf (getIteratorValue c) x)) (take n (elements s)) @
        replicate (n - length (elements s)) doneResult"
    using p h e by (rule traverse(1))
  show "collect (store s) c =
      Some (takeWhile (\<lambda>v. v \<noteq> Single Undefined) (map (outOf (getIteratorValue c)) (elements s)))"
    using p h e by (rule traverse(2))
qed




lemma steps_one: "fst (steps [h] c) = [fst (cursor_next h c)]"
  by (simp split: prod.splits)

lemma takeWhile_Single:
  "takeWhile (\<lambda>v. v \<noteq> Single Undefined) (map Single xs) =
   map Single (takeWhile (\<lambda>x. x \<noteq> Undefined) xs)"
  by (induction xs) auto

lemma values_set_fields [simp]:
  "getIteratorValue (values_set s) = NodeValue" "startNode (values_set s) = None"
  "capturedLastNode (values_set s) = lastNode s" "currentNode (values_set s) = firstNode s"
  "forwards (values_set s)"
  by (simp_all add: values_set_def iterableIterator_def)

lemma entries_fields [simp]:
  "getIteratorValue (entries s) = NodePair" "startNode (entries s) = None"
  "capturedLastNode (entries s) = lastNode s" "currentNode (entries s) = firstNode s"
  "forwards (entries s)"
  by (simp_all add: entries_def iterableIterator_def)

lemma iteratorFor_fields [simp]:
  "getIteratorValue (iteratorFor v s) = NodeValue" "startNode (iteratorFor v s) = Map_get (setMap s) v"
  "capturedLastNode (iteratorFor v s) = lastNode s" "forwards (iteratorFor v s)"
  by (simp_all add: iteratorFor_def iterableIterator_def)

lemma reverse_fields [simp]:
  "getIteratorValue (cursor_reverseIterator c) = getIteratorValue c"
  "startNode (cursor_reverseIterator c) = startNode c"
  "capturedLastNode (cursor_reverseIterator c) = capturedLastNode c"
  "currentNode (cursor_reverseIterator c) =
     (case startNode c of Some a \<Rightarrow> Some a | None \<Rightarrow> capturedLastNode c)"
  "\<not> forwards (cursor_reverseIterator c)"
  by (simp_all add: cursor_reverseIterator_def)


lemma on_chain_value:
  assumes "on_chain (chain s) c" "currentNode c = Some a"
  shows "nodeValue (store s ! a) \<in> set (elements s)"
  using assms by (auto simp: on_chain_def elements_def)

lemma done_iff_undefined:
  "resultDone (fst (cursor_next h c)) = (resultValue (fst (cursor_next h c)) = Single Undefined)"
  by (cases "currentNode c") (simp_all add: cursor_next_None cursor_next_Some doneResult_def)



lemma takeWhile_no_undefined:
  "Undefined \<notin> set xs \<Longrightarrow> takeWhile (\<lambda>v. v \<noteq> Single Undefined) (map Single xs) = map Single xs"
  by (induction xs) auto

text \<open>Every set that the public operations can build satisfies the invariants.\<close>

lemma set_inv_operation: "set_inv s \<Longrightarrow> set_inv (applyOperation s op)"
  by (cases op) (simp_all add: set_inv_add(1) set_inv_addFirst(1) set_inv_delete(1) set_inv_clear)

lemma set_inv_foldl: "set_inv s \<Longrightarrow> set_inv (foldl applyOperation s ops)"
  by (induction ops arbitrary: s) (simp_all add: set_inv_operation)

lemma set_inv_built: "set_inv (built iterable ops)"
  unfolding built_def using set_inv_construct by (rule set_inv_foldl)

section \<open>Properties of the specification\<close>

text \<open>
  C7. For the set built from a, b, c, d, e in this order, \<open>iteratorFor('c')\<close> yields c, d, e
  and then reports the end; reversed at once it yields c, b, a and then reports the end.
\<close>

theorem iteratorFor_anchor_example:
  "collect (store abcde) (iteratorFor (Val ''c'') abcde) =
     Some [Single (Val ''c''), Single (Val ''d''), Single (Val ''e'')] \<and>
   collect (store abcde) (cursor_reverseIterator (iteratorFor (Val ''c'') abcde)) =
     Some [Single (Val ''c''), Single (Val ''b''), Single (Val ''a'')] \<and>
   fst (steps (replicate 4 (store abcde)) (iteratorFor (Val ''c'') abcde)) =
     [\<lparr>resultValue = Single (Val ''c''), resultDone = False\<rparr>,
      \<lparr>resultValue = Single (Val ''d''), resultDone = False\<rparr>,
      \<lparr>resultValue = Single (Val ''e''), resultDone = False\<rparr>,
      \<lparr>resultValue = Single Undefined, resultDone = True\<rparr>] \<and>
   fst (steps (replicate 4 (store abcde)) (cursor_reverseIterator (iteratorFor (Val ''c'') abcde))) =
     [\<lparr>resultValue = Single (Val ''c''), resultDone = False\<rparr>,
      \<lparr>resultValue = Single (Val ''b''), resultDone = False\<rparr>,
      \<lparr>resultValue = Single (Val ''a''), resultDone = False\<rparr>,
      \<lparr>resultValue = Single Undefined, resultDone = True\<rparr>]"
  unfolding abcde_def by code_simp

text \<open>
  C8. \<open>add\<close> and \<open>addFirst\<close> of a value that the set already has are no-ops: the set that is
  returned is the set as it was, so its size, its chain and the order of its elements are
  what they were.
\<close>

theorem add_present_noop:
  assumes "has s v"
  shows "add v s = s \<and> addFirst v s = s \<and>
    size_set (add v s) = size_set s \<and> size_set (addFirst v s) = size_set s \<and>
    elements (add v s) = elements s \<and> elements (addFirst v s) = elements s \<and>
    chain (add v s) = chain s \<and> chain (addFirst v s) = chain s"
  using assms by (simp add: add_def addFirst_def)

theorem add_present_noop_witness:
  "has abc (Val ''c'') \<and>
   addFirst (Val ''c'') abc = abc \<and>
   elements (addFirst (Val ''c'') abc) = [Val ''a'', Val ''b'', Val ''c''] \<and>
   size_set (add (Val ''c'') abc) = 3"
proof -
  have h: "has abc (Val ''c'')"
    unfolding abc_def by code_simp
  have e: "elements abc = [Val ''a'', Val ''b'', Val ''c'']"
    unfolding abc_def by code_simp
  have z: "size_set abc = 3"
    unfolding abc_def by code_simp
  show ?thesis using h e z add_present_noop [OF h] by simp
qed

text \<open>
  C9. On a well-formed set \<open>delete\<close> returns true exactly when the value is present. When
  it is absent the result is false and the set is the set as it was. When it is present
  the value is gone afterwards, the size is one less, and in every case the remaining
  elements are the old ones without the value, in their old order; deleting the only
  element leaves \<open>_firstNode\<close> and \<open>_lastNode\<close> both \<open>null\<close>. The set stays well-formed.
\<close>

theorem delete_correct:
  assumes "set_inv s"
  shows "fst (delete v s) = has s v \<and> has s v = (v \<in> set (elements s)) \<and>
    (\<not> has s v \<longrightarrow> delete v s = (False, s)) \<and>
    (has s v \<longrightarrow> fst (delete v s) \<and> \<not> has (snd (delete v s)) v \<and>
       Suc (size_set (snd (delete v s))) = size_set s) \<and>
    elements (snd (delete v s)) = filter (\<lambda>x. x \<noteq> v) (elements s) \<and>
    (elements s = [v] \<longrightarrow> firstNode (snd (delete v s)) = None \<and>
       lastNode (snd (delete v s)) = None \<and> size_set (snd (delete v s)) = 0) \<and>
    set_inv (snd (delete v s))"
proof -
  let ?s' = "snd (delete v s)"
  note d = set_inv_delete [OF assms, of v]
  have h: "has s v = (v \<in> set (elements s))" using assms by (rule set_inv_has)
  have "\<not> has ?s' v" using set_inv_has [OF d(1), of v] d(3) by simp
  moreover have "Suc (size_set ?s') = size_set s" if "has s v"
    using that h d(4) set_inv_size [OF assms] length_filter_neq [OF set_inv_distinct [OF assms], of v]
    by simp
  moreover have "firstNode ?s' = None \<and> lastNode ?s' = None \<and> size_set ?s' = 0"
    if "elements s = [v]"
  proof -
    from that d(3) have "elements ?s' = []" by simp
    then show ?thesis using set_inv_empty_ends [OF d(1)] set_inv_size [OF d(1)] by simp
  qed
  moreover have "\<not> has s v \<longrightarrow> delete v s = (False, s)" by (simp add: delete_absent)
  ultimately show ?thesis using d(1,2,3) h by blast
qed

theorem delete_correct_witness:
  "set_inv abc \<and> has abc (Val ''b'') \<and> fst (delete (Val ''b'') abc) \<and>
   elements (snd (delete (Val ''b'') abc)) = [Val ''a'', Val ''c''] \<and>
   size_set (snd (delete (Val ''b'') abc)) = 2 \<and>
   \<not> has abc (Val ''x'') \<and> delete (Val ''x'') abc = (False, abc) \<and>
   set_inv single \<and> elements single = [Val ''a''] \<and>
   firstNode (snd (delete (Val ''a'') single)) = None \<and>
   lastNode (snd (delete (Val ''a'') single)) = None"
proof -
  have i: "set_inv abc" unfolding abc_def by code_simp
  have e: "elements abc = [Val ''a'', Val ''b'', Val ''c'']" unfolding abc_def by code_simp
  have z: "size_set abc = 3" unfolding abc_def by code_simp
  have j: "set_inv single" unfolding single_def by code_simp
  have f: "elements single = [Val ''a'']" unfolding single_def by code_simp
  show ?thesis
    using i e z j f delete_correct [OF i, of "Val ''b''"] delete_correct [OF i, of "Val ''x''"]
      delete_correct [OF j, of "Val ''a''"]
    by simp
qed

text \<open>
  C10. The constructor yields a set that satisfies the invariants, and \<open>add\<close>, \<open>addFirst\<close>,
  \<open>delete\<close> and \<open>clear\<close> keep them, so that every set built by the constructor and any
  sequence of these methods satisfies them: one node per value and the index made of exactly the
  chain's nodes; an acyclic, doubly consistent chain; a first node without predecessor and
  a last node without successor, both \<open>null\<close> exactly when the set is empty; the size of the
  index, the length of the chain and the reported size all equal.
\<close>

theorem operations_preserve_invariants:
  "set_inv (construct iterable) \<and>
   (set_inv s \<longrightarrow>
      set_inv (add v s) \<and> set_inv (addFirst v s) \<and> set_inv (snd (delete v s)) \<and>
      set_inv (clear s)) \<and>
   set_inv (built iterable ops)"
  by (simp add: set_inv_construct set_inv_add(1) set_inv_addFirst(1) set_inv_delete(1)
      set_inv_clear set_inv_built)

theorem operations_preserve_invariants_witness:
  "set_inv abc \<and> set_inv (add (Val ''d'') abc) \<and> set_inv (addFirst (Val ''d'') abc) \<and>
   set_inv (snd (delete (Val ''b'') abc)) \<and> set_inv (clear abc) \<and>
   inv_index (add (Val ''d'') abc) \<and> inv_chain (addFirst (Val ''d'') abc) \<and>
   inv_ends (snd (delete (Val ''b'') abc)) \<and> inv_size (snd (delete (Val ''b'') abc))"
proof -
  have i: "set_inv abc" unfolding abc_def by code_simp
  show ?thesis
    using i operations_preserve_invariants [of "Some []" abc "Val ''d''"]
      operations_preserve_invariants [of "Some []" abc "Val ''b''"]
    unfolding set_inv_def by blast
qed

text \<open>
  C1. For a value that the set does not have, \<open>iteratorFor\<close> is meant to give a cursor
  that is exhausted at once. The code does not: the lookup in \<open>_setMap\<close> gives
  \<open>undefined\<close>, which \<open>_iterableIterator\<close> takes for a start node that was not passed,
  and the cursor starts at the first element. On the set a, b, c the first step of
  \<open>iteratorFor('x')\<close> yields a and is not done, and collecting the cursor gives a, b, c,
  while \<open>delete('x')\<close> on the same set sees the miss and returns false.
\<close>

theorem iteratorFor_absent_starts_at_first:
  "\<not> has abc (Val ''x'') \<and>
   fst (cursor_next (store abc) (iteratorFor (Val ''x'') abc)) =
     \<lparr>resultValue = Single (Val ''a''), resultDone = False\<rparr> \<and>
   collect (store abc) (iteratorFor (Val ''x'') abc) =
     Some [Single (Val ''a''), Single (Val ''b''), Single (Val ''c'')] \<and>
   fst (delete (Val ''x'') abc) = False"
  unfolding abc_def by code_simp

text \<open>
  C2. Once a cursor has reported the end, every later \<open>next()\<close> is meant to report it
  too. The code does not keep to that: on the set \<open>undefined\<close>, a the cursor of
  \<open>values()\<close> reports the end at its first step, the value of that step being
  \<open>undefined\<close>, and its second step yields a and is not done; only the third step is
  the end of the chain. The cursor of \<open>entries()\<close> on the same set yields both elements
  before it reports the end.
\<close>

theorem done_at_undefined_not_sticky:
  "fst (steps (replicate 3 (store undef_a)) (values_set undef_a)) =
     [\<lparr>resultValue = Single Undefined, resultDone = True\<rparr>,
      \<lparr>resultValue = Single (Val ''a''), resultDone = False\<rparr>,
      \<lparr>resultValue = Single Undefined, resultDone = True\<rparr>] \<and>
   fst (steps (replicate 3 (store undef_a)) (entries undef_a)) =
     [\<lparr>resultValue = Pair Undefined Undefined, resultDone = False\<rparr>,
      \<lparr>resultValue = Pair (Val ''a'') (Val ''a''), resultDone = False\<rparr>,
      \<lparr>resultValue = Single Undefined, resultDone = True\<rparr>]"
  unfolding undef_a_def by code_simp

text \<open>
  C3. A step is marked done exactly when the value it produces is \<open>undefined\<close>. So on a
  set whose elements are \<open>pre\<close>, then \<open>undefined\<close>, then \<open>y\<close>, then \<open>rest\<close>, a \<open>values()\<close> cursor
  yields the elements of \<open>pre\<close> as not done, reports done on reaching \<open>undefined\<close>, and on
  the next call yields \<open>y\<close> as not done; spread over \<open>values()\<close>, which is also the default
  iteration, stops at \<open>undefined\<close> and gives \<open>pre\<close> only.
\<close>

theorem undefined_element_reports_done:
  assumes "set_inv s" and "elements s = pre @ Undefined # y # rest"
  shows "fst (steps (replicate (length pre + 2) (store s)) (values_set s)) =
      map (\<lambda>x. \<lparr>resultValue = Single x, resultDone = False\<rparr>) pre @
        [\<lparr>resultValue = Single Undefined, resultDone = True\<rparr>,
         \<lparr>resultValue = Single y, resultDone = False\<rparr>] \<and>
    collect (store s) (values_set s) = Some (map Single pre) \<and>
    collect (store s) (symbolIterator s) = Some (map Single pre) \<and>
    (\<forall>h c. resultDone (fst (cursor_next h c) :: 'a IteratorResult) =
       (resultValue (fst (cursor_next h c) :: 'a IteratorResult) = Single Undefined))"
proof -
  have d: "distinct (elements s)" using assms(1) by (rule set_inv_distinct)
  from d have np: "Undefined \<notin> set pre" and ny: "y \<noteq> Undefined"
    unfolding assms(2) by auto
  have tk: "take (length pre + 2) (elements s) = pre @ [Undefined, y]"
    unfolding assms(2) by simp
  have "fst (steps (replicate (length pre + 2) (store s)) (values_set s)) =
      map (\<lambda>x. iteratorResult (outOf (getIteratorValue (values_set s)) x))
        (take (length pre + 2) (elements s)) @
        replicate (length pre + 2 - length (elements s)) doneResult"
    using assms(1) by (rule traverse_forward(1)) simp_all
  also have "\<dots> = map (\<lambda>x. iteratorResult (Single x)) pre @
      [iteratorResult (Single Undefined), iteratorResult (Single y)]"
    unfolding tk by (simp add: assms(2))
  also have "map (\<lambda>x. iteratorResult (Single x)) pre =
      map (\<lambda>x. \<lparr>resultValue = Single x, resultDone = False\<rparr>) pre"
    using np by (intro map_cong) (auto simp: iteratorResult_def)
  finally have st: "fst (steps (replicate (length pre + 2) (store s)) (values_set s)) =
      map (\<lambda>x. \<lparr>resultValue = Single x, resultDone = False\<rparr>) pre @
        [\<lparr>resultValue = Single Undefined, resultDone = True\<rparr>,
         \<lparr>resultValue = Single y, resultDone = False\<rparr>]"
    using ny by (simp add: iteratorResult_def)
  have "collect (store s) (values_set s) =
      Some (takeWhile (\<lambda>v. v \<noteq> Single Undefined)
        (map (outOf (getIteratorValue (values_set s))) (elements s)))"
    using assms(1) by (rule traverse_forward(2)) simp_all
  also have "map (outOf (getIteratorValue (values_set s))) (elements s) = map Single (elements s)"
    by simp
  also have "takeWhile (\<lambda>v. v \<noteq> Single Undefined) (map Single (elements s)) =
      map Single (takeWhile (\<lambda>x. x \<noteq> Undefined) (elements s))"
    by (rule takeWhile_Single)
  also have "takeWhile (\<lambda>x. x \<noteq> Undefined) (elements s) = pre"
    unfolding assms(2) using np by (rule takeWhile_neq)
  finally have col: "collect (store s) (values_set s) = Some (map Single pre)" .
  have dn: "\<forall>h c. resultDone (fst (cursor_next h c) :: 'a IteratorResult) =
      (resultValue (fst (cursor_next h c) :: 'a IteratorResult) = Single Undefined)"
    by (intro allI) (rule done_iff_undefined)
  show ?thesis unfolding symbolIterator_def using st col dn by blast
qed

theorem undefined_element_reports_done_witness:
  "set_inv a_undef_b \<and> elements a_undef_b = [Val ''a''] @ Undefined # Val ''b'' # [] \<and>
   fst (steps (replicate 3 (store a_undef_b)) (values_set a_undef_b)) =
     [\<lparr>resultValue = Single (Val ''a''), resultDone = False\<rparr>,
      \<lparr>resultValue = Single Undefined, resultDone = True\<rparr>,
      \<lparr>resultValue = Single (Val ''b''), resultDone = False\<rparr>] \<and>
   collect (store a_undef_b) (symbolIterator a_undef_b) = Some [Single (Val ''a'')]"
proof -
  have i: "set_inv a_undef_b" unfolding a_undef_b_def by code_simp
  have e: "elements a_undef_b = [Val ''a''] @ Undefined # Val ''b'' # []"
    unfolding a_undef_b_def by code_simp
  have n: "length [Val ''a'' :: string jsval] + 2 = 3" by simp
  note t = undefined_element_reports_done [OF i e, unfolded n]
  have m: "map (\<lambda>x. \<lparr>resultValue = Single x, resultDone = False\<rparr>) [Val ''a'' :: string jsval] @
      [\<lparr>resultValue = Single Undefined, resultDone = True\<rparr>,
       \<lparr>resultValue = Single (Val ''b''), resultDone = False\<rparr>] =
      [\<lparr>resultValue = Single (Val ''a''), resultDone = False\<rparr>,
       \<lparr>resultValue = Single Undefined, resultDone = True\<rparr>,
       \<lparr>resultValue = Single (Val ''b''), resultDone = False\<rparr>]"
    by simp
  have l: "map Single [Val ''a'' :: string jsval] = [Single (Val ''a'')]" by simp
  show ?thesis using i e t unfolding m l by blast
qed






text \<open>
  C6. Collecting \<open>reverseIterator()\<close> is meant to give the reversal of what collecting
  \<open>values()\<close> gives. The code does not on the set a, \<open>undefined\<close>, b, where either
  collection stops at the \<open>undefined\<close> element: forward gives a alone, backward gives b
  alone. Collecting \<open>entries()\<close> on the same set gives all three elements, and its
  reversed cursor gives them in reverse.
\<close>

theorem reverse_not_mirror_at_undefined:
  "collect (store a_undef_b) (values_set a_undef_b) = Some [Single (Val ''a'')] \<and>
   collect (store a_undef_b) (reverseIterator a_undef_b) = Some [Single (Val ''b'')] \<and>
   collect (store a_undef_b) (reverseIterator a_undef_b) \<noteq>
     map_option rev (collect (store a_undef_b) (values_set a_undef_b)) \<and>
   collect (store a_undef_b) (entries a_undef_b) =
     Some [Pair (Val ''a'') (Val ''a''), Pair Undefined Undefined, Pair (Val ''b'') (Val ''b'')] \<and>
   collect (store a_undef_b) (cursor_reverseIterator (entries a_undef_b)) =
     Some [Pair (Val ''b'') (Val ''b''), Pair Undefined Undefined, Pair (Val ''a'') (Val ''a'')]"
  unfolding a_undef_b_def by code_simp

end
